theory Spec2Isabelle
  imports Main "HOL-Library.Word"
begin

section \<open>Data model of \<open>src/comm/socks.py\<close>\<close>

text \<open>
  A byte is an 8-bit word. A Python \<open>str\<close> is a sequence of Unicode code points, which
  are kept as natural numbers, since the text decoded from the wire may hold any code
  point; \<open>py\<close> turns a literal of the source into such a sequence.
\<close>

type_synonym byte = "8 word"
type_synonym pystr = "nat list"

definition py :: "string \<Rightarrow> pystr" where
  "py cs = map of_char cs"

datatype error = FileNotFoundError | UnicodeDecodeError | UnicodeEncodeError | OSError

subsection \<open>\<open>str(n)\<close> for an integer\<close>

fun str_nat :: "nat \<Rightarrow> pystr" where
  "str_nat n = (if n < 10 then [48 + n] else str_nat (n div 10) @ [48 + n mod 10])"

declare str_nat.simps [simp del]

definition str :: "int \<Rightarrow> pystr" where
  "str i = (if i < 0 then 45 # str_nat (nat (- i)) else str_nat (nat i))"

text \<open>The decimal value of a sequence of digit characters, read left to right.\<close>

fun dec_value :: "nat \<Rightarrow> pystr \<Rightarrow> nat" where
  "dec_value acc [] = acc"
| "dec_value acc (c # cs) = dec_value (10 * acc + (c - 48)) cs"

subsection \<open>The codecs: \<open>encode('ascii')\<close> and \<open>decode('utf-8')\<close>\<close>

definition encode_ascii :: "pystr \<Rightarrow> error + byte list" where
  "encode_ascii t =
     (if list_all (\<lambda>c. c < 128) t then Inr (map of_nat t) else Inl UnicodeEncodeError)"

definition cont :: "byte \<Rightarrow> bool" where
  "cont b = (0x80 \<le> b \<and> b \<le> 0xBF)"

definition tail6 :: "byte \<Rightarrow> nat" where
  "tail6 b = unat b - 0x80"

text \<open>
  Strict UTF-8, as Python decodes it: shortest form only, no surrogates, nothing beyond
  U+10FFFF. \<open>None\<close> is the \<open>UnicodeDecodeError\<close>.
\<close>

fun utf8_decode :: "byte list \<Rightarrow> pystr option" where
  "utf8_decode [] = Some []"
| "utf8_decode (b # bs) =
     (if b < 0x80 then map_option (Cons (unat b)) (utf8_decode bs)
      else if 0xC2 \<le> b \<and> b \<le> 0xDF then
        (case bs of
           c1 # r \<Rightarrow>
             if cont c1
             then map_option (Cons ((unat b - 0xC0) * 64 + tail6 c1)) (utf8_decode r)
             else None
         | _ \<Rightarrow> None)
      else if 0xE0 \<le> b \<and> b \<le> 0xEF then
        (case bs of
           c1 # c2 # r \<Rightarrow>
             if (if b = 0xE0 then 0xA0 else 0x80) \<le> c1
                \<and> c1 \<le> (if b = 0xED then 0x9F else 0xBF) \<and> cont c2
             then map_option (Cons ((unat b - 0xE0) * 4096 + tail6 c1 * 64 + tail6 c2))
                    (utf8_decode r)
             else None
         | _ \<Rightarrow> None)
      else if 0xF0 \<le> b \<and> b \<le> 0xF4 then
        (case bs of
           c1 # c2 # c3 # r \<Rightarrow>
             if (if b = 0xF0 then 0x90 else 0x80) \<le> c1
                \<and> c1 \<le> (if b = 0xF4 then 0x8F else 0xBF) \<and> cont c2 \<and> cont c3
             then map_option
                    (Cons ((unat b - 0xF0) * 262144 + tail6 c1 * 4096 + tail6 c2 * 64 + tail6 c3))
                    (utf8_decode r)
             else None
         | _ \<Rightarrow> None)
      else None)"

subsection \<open>The connection\<close>

text \<open>
  A connected stream socket, seen from one endpoint. \<open>incoming\<close> holds the bytes the peer
  has put on the wire and this end has not read yet; \<open>peer_closed\<close> says what happens once
  they are used up (end of stream, or a read that blocks for ever); \<open>segs\<close> is the
  network's choice of how the stream is cut into reads, one entry per \<open>recv\<close>, so that
  every theorem holds for every segmentation. \<open>rlog\<close> and \<open>sent\<close> record the calls made:
  each \<open>recv\<close> with its buffer size and the bytes it returned, each \<open>send\<close> with its
  buffer. Socket errors (a reset connection, a broken pipe) are outside the model.
\<close>

record sock =
  incoming :: "byte list"
  peer_closed :: bool
  segs :: "nat list"
  rlog :: "(nat \<times> byte list) list"
  sent :: "byte list list"

text \<open>
  \<open>recv(bufsize)\<close>: at least one byte and at most \<open>bufsize\<close> bytes of the stream when there
  are any, the empty bytes object at the end of the stream, and no return at all
  (\<open>None\<close>) on an open connection with nothing to read.
\<close>

definition granted :: "sock \<Rightarrow> nat \<Rightarrow> nat" where
  "granted s bufsize = (case segs s of [] \<Rightarrow> bufsize | g # _ \<Rightarrow> min bufsize (Suc g))"

definition recv :: "sock \<Rightarrow> nat \<Rightarrow> (byte list \<times> sock) option" where
  "recv s bufsize =
     (if incoming s = [] then
        (if peer_closed s then Some ([], s\<lparr>rlog := rlog s @ [(bufsize, [])]\<rparr>) else None)
      else
        Some (take (granted s bufsize) (incoming s),
              s\<lparr>incoming := drop (granted s bufsize) (incoming s), segs := tl (segs s),
                rlog := rlog s @ [(bufsize, take (granted s bufsize) (incoming s))]\<rparr>))"

text \<open>
  \<open>send(buf)\<close> on a blocking socket: the buffer goes on the wire, whole. No caller looks
  at the number of bytes that \<open>send\<close> returns, and a short send is outside the model.
\<close>

definition send :: "sock \<Rightarrow> byte list \<Rightarrow> sock" where
  "send s buf = s\<lparr>sent := sent s @ [buf]\<rparr>"

subsection \<open>The file system\<close>

text \<open>
  Paths to contents. Reading a path that is not there raises \<open>FileNotFoundError\<close>;
  opening a path for writing creates or truncates it (storage errors are outside the
  model). An open binary file is the list of the bytes not read yet.
\<close>

type_synonym filesys = "pystr \<rightharpoonup> byte list"

text \<open>
  \<open>filedesc.readline(size)\<close>: the bytes up to and including the next newline byte, at
  most \<open>size\<close> of them (\<open>limit\<close> below), and the file advanced behind them; empty only at the end of the
  file.
\<close>

fun readline :: "nat \<Rightarrow> byte list \<Rightarrow> byte list \<times> byte list" where
  "readline limit [] = ([], [])"
| "readline limit (b # fd) =
     (if limit = 0 then ([], b # fd)
      else if b = 0x0A then ([b], fd)
      else (case readline (limit - 1) fd of (line, fd') \<Rightarrow> (b # line, fd')))"

section \<open>The operations\<close>

subsection \<open>\<open>receive_bytes_to_string\<close>\<close>

definition receive_bytes_to_string :: "sock \<Rightarrow> (error + pystr \<times> sock) option" where
  "receive_bytes_to_string client_sock =
     (case recv client_sock 1024 of
        None \<Rightarrow> None
      | Some (byte_msg, s') \<Rightarrow>
          (case utf8_decode byte_msg of
             None \<Rightarrow> Some (Inl UnicodeDecodeError)
           | Some t \<Rightarrow> Some (Inr (filter (\<lambda>c. c \<noteq> 10) t, s'))))"

subsection \<open>\<open>send_frame_size\<close>\<close>

definition send_frame_size :: "sock \<Rightarrow> filesys \<Rightarrow> pystr \<Rightarrow> error + sock" where
  "send_frame_size client_socket fs frame_loc =
     (case fs frame_loc of
        None \<Rightarrow> Inl FileNotFoundError
      | Some content \<Rightarrow>
          (case encode_ascii (str (int (length content))) of
             Inl e \<Rightarrow> Inl e
           | Inr m \<Rightarrow> Inr (send client_socket m)))"

subsection \<open>\<open>send_frame\<close>\<close>

text \<open>
  The pacing \<open>time.sleep(sleep)\<close> has no effect on the data and is left out. The loop
  sends the line just read and reads the next one, until a read returns nothing.
\<close>

lemma readline_append: "readline n fd = (line, fd') \<Longrightarrow> fd = line @ fd'"
  by (induction n fd arbitrary: line fd' rule: readline.induct)
     (auto split: if_splits prod.splits)

lemma readline_measure:
  "readline n fd = (buf, fd') \<Longrightarrow> length fd' + (if buf = [] then 0 else 1) \<le> length fd"
  using readline_append [of n fd buf fd'] by (cases buf) auto

function send_loop :: "sock \<Rightarrow> byte list \<Rightarrow> byte list \<Rightarrow> sock" where
  "send_loop client_socket buf filedesc =
     (if buf \<noteq> [] then
        (case readline 1024 filedesc of
           (buf', filedesc') \<Rightarrow> send_loop (send client_socket buf) buf' filedesc')
      else client_socket)"
  by pat_completeness auto
termination
  by (relation "measure (\<lambda>(s, buf, fd). length fd + (if buf = [] then 0 else 1))")
     (auto split: prod.splits dest!: readline_measure)

declare send_loop.simps [simp del]

definition send_frame :: "sock \<Rightarrow> filesys \<Rightarrow> pystr \<Rightarrow> error + sock" where
  "send_frame client_socket fs frame_loc =
     (case fs frame_loc of
        None \<Rightarrow> Inl FileNotFoundError
      | Some content \<Rightarrow>
          (case readline 1024 content of
             (buf, filedesc) \<Rightarrow> Inr (send_loop client_socket buf filedesc)))"

subsection \<open>\<open>receive_frame\<close>\<close>

text \<open>
  The state of the read loop is the socket, \<open>img_size\<close> and the bytes written to the
  open file so far. \<open>recv_iter\<close> is the body of the loop; the loop has no exit but its
  guard, so it is a partial function: \<open>None\<close> when it never returns.
\<close>

definition recv_iter :: "int \<Rightarrow> sock \<times> int \<times> byte list \<Rightarrow> (sock \<times> int \<times> byte list) option" where
  "recv_iter frame_size st =
     (case st of (client_sock, img_size, img) \<Rightarrow>
        (let remain = frame_size - img_size in
         case (if remain < 1024 then recv client_sock (nat remain) else recv client_sock 1024) of
           None \<Rightarrow> None
         | Some (data, s') \<Rightarrow> Some (s', img_size + int (length data), img @ data)))"

partial_function (option)
  receive_loop :: "int \<Rightarrow> sock \<times> int \<times> byte list \<Rightarrow> (sock \<times> int \<times> byte list) option"
where
  "receive_loop frame_size st =
     (if fst (snd st) < frame_size
      then (case recv_iter frame_size st of
              None \<Rightarrow> None
            | Some st' \<Rightarrow> receive_loop frame_size st')
      else Some st)"

definition filename_of :: "pystr \<Rightarrow> int \<Rightarrow> pystr" where
  "filename_of save_loc frame = save_loc @ py ''frame'' @ str frame @ py ''.jpg''"

definition receive_frame :: "sock \<Rightarrow> filesys \<Rightarrow> int \<Rightarrow> int \<Rightarrow> pystr \<Rightarrow> (sock \<times> filesys) option" where
  "receive_frame client_sock fs frame frame_size save_loc =
     (case receive_loop frame_size (client_sock, 0, []) of
        None \<Rightarrow> None
      | Some (s', img_size, img) \<Rightarrow> Some (s', fs(filename_of save_loc frame \<mapsto> img)))"

subsection \<open>\<open>waiting_for_ack\<close> and \<open>send_frame_ack\<close>\<close>

definition ack_text :: "int \<Rightarrow> pystr" where
  "ack_text frame = py ''OK FRAME '' @ str frame"

text \<open>One \<open>client_socket.recv(1024).decode('UTF-8')\<close>.\<close>

definition recv_decode :: "sock \<Rightarrow> (error + pystr \<times> sock) option" where
  "recv_decode client_socket =
     (case recv client_socket 1024 of
        None \<Rightarrow> None
      | Some (data, s') \<Rightarrow>
          (case utf8_decode data of
             None \<Rightarrow> Some (Inl UnicodeDecodeError)
           | Some msg \<Rightarrow> Some (Inr (msg, s'))))"

partial_function (option) ack_loop :: "sock \<Rightarrow> pystr \<Rightarrow> int \<Rightarrow> (error + sock) option" where
  "ack_loop client_socket msg frame =
     (if msg \<noteq> ack_text frame
      then (case recv_decode client_socket of
              None \<Rightarrow> None
            | Some (Inl e) \<Rightarrow> Some (Inl e)
            | Some (Inr (msg', s')) \<Rightarrow> ack_loop s' msg' frame)
      else Some (Inr client_socket))"

definition waiting_for_ack :: "sock \<Rightarrow> int \<Rightarrow> (error + sock) option" where
  "waiting_for_ack client_socket frame =
     (case recv_decode client_socket of
        None \<Rightarrow> None
      | Some (Inl e) \<Rightarrow> Some (Inl e)
      | Some (Inr (msg, s')) \<Rightarrow> ack_loop s' msg frame)"

definition send_frame_ack :: "sock \<Rightarrow> int \<Rightarrow> error + sock" where
  "send_frame_ack client_sock frame =
     (case encode_ascii (ack_text frame) of
        Inl e \<Rightarrow> Inl e
      | Inr m \<Rightarrow> Inr (send client_sock m))"

subsection \<open>\<open>init_server_socket\<close>\<close>

text \<open>
  The host as the socket calls see it: its name, the resolver's table, which addresses
  and ports can be bound, and the calls made so far. A TCP socket is unbound, bound,
  listening, or one end of an established connection.
\<close>

datatype syscall =
  SocketCall | GetHostName | GetHostByName pystr | Bind pystr int | Listen | Accept

datatype tcp_state =
  Unbound | Bound pystr int | Listening pystr int | Established pystr int

record host =
  hostname :: pystr
  hosts :: "pystr \<rightharpoonup> pystr"
  bindable :: "pystr \<Rightarrow> int \<Rightarrow> bool"
  calls :: "syscall list"

definition local_address :: "host \<Rightarrow> error + pystr \<times> host" where
  "local_address h =
     (case hosts h (hostname h) of
        None \<Rightarrow> Inl OSError
      | Some a \<Rightarrow> Inr (a, h\<lparr>calls := calls h @ [GetHostName, GetHostByName (hostname h)]\<rparr>))"

definition bind_socket :: "host \<Rightarrow> pystr \<Rightarrow> int \<Rightarrow> error + tcp_state \<times> host" where
  "bind_socket h address port =
     (if bindable h address port
      then Inr (Bound address port, h\<lparr>calls := calls h @ [Bind address port]\<rparr>)
      else Inl OSError)"

text \<open>An omitted \<open>port\<close> is \<open>None\<close> and takes the default 5000.\<close>

definition init_server_socket :: "host \<Rightarrow> pystr option \<Rightarrow> int option \<Rightarrow> error + tcp_state \<times> host" where
  "init_server_socket h address port =
     (case (case address of
              None \<Rightarrow> local_address (h\<lparr>calls := calls h @ [SocketCall]\<rparr>)
            | Some a \<Rightarrow> Inr (a, h\<lparr>calls := calls h @ [SocketCall]\<rparr>)) of
        Inl e \<Rightarrow> Inl e
      | Inr (a, h') \<Rightarrow> bind_socket h' a (case port of None \<Rightarrow> 5000 | Some p \<Rightarrow> p))"

section \<open>Notions the properties are stated with\<close>

text \<open>
  The states the read loop of \<open>receive_frame\<close> passes through at its head, from a given
  state: each step is one run of the body under the guard.
\<close>

inductive loop_reach :: "int \<Rightarrow> sock \<times> int \<times> byte list \<Rightarrow> sock \<times> int \<times> byte list \<Rightarrow> bool"
  for frame_size :: int and st :: "sock \<times> int \<times> byte list"
where
  start: "loop_reach frame_size st st"
| iter: "loop_reach frame_size st st1 \<Longrightarrow> fst (snd st1) < frame_size \<Longrightarrow>
         recv_iter frame_size st1 = Some st2 \<Longrightarrow> loop_reach frame_size st st2"

text \<open>
  A log of reads is the trace of a complete run of the loop from \<open>got\<close> bytes: every read
  is made while fewer than \<open>frame_size\<close> bytes have come, asks for 1024 bytes or for what
  remains if that is less, and the run ends when the count is \<open>frame_size\<close>.
\<close>

fun read_trace :: "int \<Rightarrow> int \<Rightarrow> (nat \<times> byte list) list \<Rightarrow> bool" where
  "read_trace frame_size got [] = (got = frame_size)"
| "read_trace frame_size got ((n, data) # log) =
     (got < frame_size \<and> int n = min 1024 (frame_size - got)
      \<and> read_trace frame_size (got + int (length data)) log)"

text \<open>
  The successive results of \<open>recv(1024)\<close> on a connection, until its stream is used up.
\<close>

lemma recv_shrinks:
  "incoming s \<noteq> [] \<Longrightarrow> recv s 1024 = Some (d, s') \<Longrightarrow> length (incoming s') < length (incoming s)"
  by (auto simp: recv_def granted_def split: list.splits)

function msgs :: "sock \<Rightarrow> byte list list" where
  "msgs s =
     (if incoming s = [] then []
      else (case recv s 1024 of None \<Rightarrow> [] | Some (d, s') \<Rightarrow> d # msgs s'))"
  by pat_completeness auto
termination
  by (relation "measure (\<lambda>s. length (incoming s))") (auto dest: recv_shrinks)

declare msgs.simps [simp del]

text \<open>
  A log of reads all of which \<open>waiting_for_ack\<close> discards: each asked for 1024 bytes and
  returned bytes that decode to a text other than the awaited acknowledgment.
\<close>

definition discarded :: "int \<Rightarrow> (nat \<times> byte list) list \<Rightarrow> bool" where
  "discarded frame log =
     list_all (\<lambda>e. fst e = 1024
                 \<and> (case utf8_decode (snd e) of None \<Rightarrow> False | Some t \<Rightarrow> t \<noteq> ack_text frame)) log"

section \<open>Basic facts\<close>

subsection \<open>Reads, decimal text and the codecs\<close>

lemma granted_le: "granted s n \<le> n"
  by (simp add: granted_def split: list.splits)

lemma granted_pos: "0 < n \<Longrightarrow> 0 < granted s n"
  by (simp add: granted_def split: list.splits)

lemma recv_SomeD:
  assumes "recv s n = Some (d, s')"
  shows "length d \<le> n" and "incoming s = d @ incoming s'"
    and "rlog s' = rlog s @ [(n, d)]" and "sent s' = sent s"
    and "peer_closed s' = peer_closed s"
  using assms granted_le [of s n]
  by (auto simp: recv_def split: if_splits)

lemma recv_progress:
  assumes "incoming s \<noteq> []" and "0 < n"
  shows "\<exists>d s'. recv s n = Some (d, s') \<and> d \<noteq> []"
  using assms granted_pos [of n s] by (simp add: recv_def)

lemma str_nat_digits: "list_all (\<lambda>c. 48 \<le> c \<and> c \<le> 57) (str_nat n)"
proof (induction n rule: str_nat.induct)
  case (1 n)
  show ?case
  proof (cases "n < 10")
    case True
    then show ?thesis by (subst str_nat.simps) simp
  next
    case False
    with 1 have "list_all (\<lambda>c. 48 \<le> c \<and> c \<le> 57) (str_nat (n div 10))" by simp
    moreover have "n mod 10 \<le> 9" by arith
    ultimately show ?thesis using False by (subst str_nat.simps) simp
  qed
qed

lemma str_nat_nonempty: "str_nat n \<noteq> []"
  by (subst str_nat.simps) simp

lemma dec_value_snoc: "dec_value acc (cs @ [c]) = 10 * dec_value acc cs + (c - 48)"
  by (induction cs arbitrary: acc) simp_all

lemma dec_value_str_nat: "dec_value 0 (str_nat n) = n"
proof (induction n rule: str_nat.induct)
  case (1 n)
  show ?case
  proof (cases "n < 10")
    case True
    then show ?thesis by (subst str_nat.simps) simp
  next
    case False
    with 1 have "dec_value 0 (str_nat (n div 10)) = n div 10" by simp
    with False show ?thesis by (subst str_nat.simps) (simp add: dec_value_snoc)
  qed
qed

lemma dec_value_str: "dec_value 0 (str (int n)) = n"
  by (simp add: str_def dec_value_str_nat)

lemma str_nat_inj:
  assumes "str_nat m = str_nat n"
  shows "m = n"
proof -
  have "dec_value 0 (str_nat m) = dec_value 0 (str_nat n)"
    by (simp only: assms)
  then show ?thesis by (simp only: dec_value_str_nat)
qed

lemma str_nat_no_minus: "str_nat n \<noteq> 45 # cs"
proof
  assume "str_nat n = 45 # cs"
  with str_nat_digits [of n] show False by simp
qed

lemma str_inj:
  assumes "str i = str j"
  shows "i = j"
proof (cases "i < 0")
  case True
  note i = this
  show ?thesis
  proof (cases "j < 0")
    case True
    with i assms have "str_nat (nat (- i)) = str_nat (nat (- j))" by (simp add: str_def)
    then have "nat (- i) = nat (- j)" by (rule str_nat_inj)
    with i True show ?thesis by simp
  next
    case False
    with i assms have "str_nat (nat j) = 45 # str_nat (nat (- i))" by (simp add: str_def)
    then show ?thesis by (simp only: str_nat_no_minus)
  qed
next
  case False
  note i = this
  show ?thesis
  proof (cases "j < 0")
    case True
    with i assms have "str_nat (nat i) = 45 # str_nat (nat (- j))" by (simp add: str_def)
    then show ?thesis by (simp only: str_nat_no_minus)
  next
    case False
    with i assms have "str_nat (nat i) = str_nat (nat j)" by (simp add: str_def)
    then have "nat i = nat j" by (rule str_nat_inj)
    with i False show ?thesis by simp
  qed
qed

lemma str_ascii: "list_all (\<lambda>c. c < 128) (str i)"
proof -
  have "list_all (\<lambda>c. c < 128) (str_nat n)" for n
    using str_nat_digits [of n] by (auto simp: list_all_iff)
  then show ?thesis by (simp add: str_def)
qed

lemma ack_text_ascii: "list_all (\<lambda>c. c < 128) (ack_text frame)"
  using str_ascii [of frame] by (simp add: ack_text_def py_def)

lemma ack_text_inj: "ack_text m = ack_text n \<Longrightarrow> m = n"
  by (simp add: ack_text_def str_inj)

lemma ack_text_nonempty: "ack_text frame \<noteq> []"
  by (simp add: ack_text_def py_def)

lemma byte_of_ascii:
  assumes "c < 128"
  shows "(of_nat c :: byte) < 0x80" and "unat (of_nat c :: byte) = c"
proof -
  from assms show u: "unat (of_nat c :: byte) = c" by (simp add: unat_of_nat)
  then show "(of_nat c :: byte) < 0x80" using assms by (simp add: word_less_nat_alt)
qed

lemma utf8_decode_ascii:
  "list_all (\<lambda>c. c < 128) t \<Longrightarrow> utf8_decode (map of_nat t) = Some t"
  by (induction t) (simp_all add: byte_of_ascii)

lemma encode_ascii_ok:
  "list_all (\<lambda>c. c < 128) t \<Longrightarrow> encode_ascii t = Inr (map of_nat t)"
  by (simp add: encode_ascii_def)

subsection \<open>What the sender puts on the wire\<close>

lemma readline_le: "length (fst (readline n fd)) \<le> n"
  by (induction n fd rule: readline.induct) (auto split: if_splits prod.splits)

lemma readline_nonempty: "0 < n \<Longrightarrow> fd \<noteq> [] \<Longrightarrow> fst (readline n fd) \<noteq> []"
  by (cases fd) (auto split: prod.splits)

lemma send_loop_chunks:
  "(buf = [] \<longrightarrow> fd = []) \<Longrightarrow> length buf \<le> 1024 \<Longrightarrow>
   \<exists>chunks. send_loop s buf fd = s\<lparr>sent := sent s @ chunks\<rparr> \<and> concat chunks = buf @ fd
     \<and> list_all (\<lambda>c. c \<noteq> [] \<and> length c \<le> 1024) chunks"
proof (induction s buf fd rule: send_loop.induct)
  case (1 s buf fd)
  show ?case
  proof (cases "buf = []")
    case True
    have "send_loop s [] fd = s" by (simp add: send_loop.simps [of s "[]"])
    with True "1.prems" show ?thesis by (intro exI [of _ "[]"]) simp
  next
    case False
    obtain buf' fd' where r: "readline 1024 fd = (buf', fd')" by (cases "readline 1024 fd")
    then have fd: "fd = buf' @ fd'" by (rule readline_append)
    have le: "length buf' \<le> 1024" using readline_le [of 1024 fd] r by simp
    have ne: "buf' = [] \<longrightarrow> fd' = []"
      using readline_nonempty [of 1024 fd] r fd by auto
    from "1.IH" [OF False r [symmetric] ne le]
    obtain chunks where c: "send_loop (send s buf) buf' fd' = (send s buf)\<lparr>sent := sent (send s buf) @ chunks\<rparr>"
      "concat chunks = buf' @ fd'" "list_all (\<lambda>c. c \<noteq> [] \<and> length c \<le> 1024) chunks"
      by blast
    have "send_loop s buf fd = s\<lparr>sent := sent s @ (buf # chunks)\<rparr>"
      using False r c(1) by (simp add: send_loop.simps [of s buf fd] send_def)
    moreover have "concat (buf # chunks) = buf @ fd" using c(2) fd by simp
    moreover have "list_all (\<lambda>c. c \<noteq> [] \<and> length c \<le> 1024) (buf # chunks)"
      using c(3) False "1.prems" by simp
    ultimately show ?thesis by blast
  qed
qed

lemma send_frame_chunks:
  assumes "fs frame_loc = Some body"
  shows "\<exists>chunks. send_frame s fs frame_loc = Inr (s\<lparr>sent := sent s @ chunks\<rparr>)
     \<and> concat chunks = body \<and> list_all (\<lambda>c. c \<noteq> [] \<and> length c \<le> 1024) chunks"
proof -
  obtain buf fd where r: "readline 1024 body = (buf, fd)" by (cases "readline 1024 body")
  then have b: "body = buf @ fd" by (rule readline_append)
  have le: "length buf \<le> 1024" using readline_le [of 1024 body] r by simp
  have ne: "buf = [] \<longrightarrow> fd = []" using readline_nonempty [of 1024 body] r b by auto
  from send_loop_chunks [OF ne le, of s] b r assms show ?thesis
    by (simp add: send_frame_def)
qed

lemma send_frame_size_ok:
  assumes "fs frame_loc = Some body"
  shows "send_frame_size s fs frame_loc = Inr (send s (map of_nat (str (int (length body)))))"
  using assms by (simp add: send_frame_size_def encode_ascii_ok str_ascii)

lemma send_frame_ack_ok:
  "send_frame_ack s frame = Inr (send s (map of_nat (ack_text frame)))"
  by (simp add: send_frame_ack_def encode_ascii_ok ack_text_ascii)

subsection \<open>The read loop of \<open>receive_frame\<close>\<close>

lemma recv_iter_SomeD:
  assumes "recv_iter fsz (s, n, img) = Some (s', n', img')" and "n < fsz"
  shows "\<exists>d. n' = n + int (length d) \<and> img' = img @ d \<and> incoming s = d @ incoming s'
     \<and> rlog s' = rlog s @ [(nat (min 1024 (fsz - n)), d)]
     \<and> int (length d) \<le> min 1024 (fsz - n) \<and> sent s' = sent s"
proof (cases "fsz - n < 1024")
  case True
  with assms obtain d where r: "recv s (nat (fsz - n)) = Some (d, s')"
    and e: "n' = n + int (length d)" "img' = img @ d"
    by (auto simp: recv_iter_def Let_def split: option.splits)
  from recv_SomeD [OF r] True assms(2) e show ?thesis by (auto simp: min_def)
next
  case False
  with assms obtain d where r: "recv s 1024 = Some (d, s')"
    and e: "n' = n + int (length d)" "img' = img @ d"
    by (auto simp: recv_iter_def Let_def split: option.splits)
  from recv_SomeD [OF r] False assms(2) e show ?thesis by (auto simp: min_def)
qed

lemma recv_iter_progress:
  assumes "n < fsz" and "incoming s \<noteq> []"
  shows "\<exists>d s'. d \<noteq> [] \<and> recv_iter fsz (s, n, img) = Some (s', n + int (length d), img @ d)
     \<and> incoming s = d @ incoming s' \<and> n + int (length d) \<le> fsz"
proof -
  let ?k = "nat (min 1024 (fsz - n))"
  have k: "0 < ?k" using assms(1) by simp
  from recv_progress [OF assms(2) k] obtain d s' where r: "recv s ?k = Some (d, s')" and d: "d \<noteq> []"
    by blast
  have "recv_iter fsz (s, n, img) = Some (s', n + int (length d), img @ d)"
    using r assms(1) by (auto simp: recv_iter_def Let_def min_def split: if_splits)
  moreover from recv_SomeD(1,2) [OF r] assms(1)
  have "incoming s = d @ incoming s'" "n + int (length d) \<le> fsz" by auto
  ultimately show ?thesis using d by blast
qed

lemma receive_loop_total:
  "n \<le> fsz \<Longrightarrow> nat (fsz - n) \<le> length (incoming s) \<Longrightarrow>
   \<exists>s'. receive_loop fsz (s, n, img) = Some (s', fsz, img @ take (nat (fsz - n)) (incoming s))
     \<and> incoming s' = drop (nat (fsz - n)) (incoming s)"
proof (induction "nat (fsz - n)" arbitrary: s n img rule: less_induct)
  case less
  show ?case
  proof (cases "n < fsz")
    case False
    with less.prems have n: "n = fsz" by simp
    have "receive_loop fsz (s, fsz, img) = Some (s, fsz, img)"
      by (simp add: receive_loop.simps [of fsz "(s, fsz, img)"])
    with n show ?thesis by simp
  next
    case True
    with less.prems have ne: "incoming s \<noteq> []" by auto
    from recv_iter_progress [OF True ne, of img]
    obtain d s1 where d: "d \<noteq> []"
      and it: "recv_iter fsz (s, n, img) = Some (s1, n + int (length d), img @ d)"
      and inc: "incoming s = d @ incoming s1" and le: "n + int (length d) \<le> fsz"
      by blast
    have m: "nat (fsz - (n + int (length d))) < nat (fsz - n)" using d True le by (cases d) auto
    have en: "nat (fsz - (n + int (length d))) \<le> length (incoming s1)"
      using less.prems(2) inc le by auto
    from less.hyps [OF m le en, of "img @ d"]
    obtain s' where s': "receive_loop fsz (s1, n + int (length d), img @ d)
        = Some (s', fsz, (img @ d) @ take (nat (fsz - (n + int (length d)))) (incoming s1))"
      "incoming s' = drop (nat (fsz - (n + int (length d)))) (incoming s1)"
      by blast
    have k: "nat (fsz - n) = length d + nat (fsz - (n + int (length d)))" using le by auto
    have "receive_loop fsz (s, n, img) = Some (s', fsz, img @ take (nat (fsz - n)) (incoming s))"
      using True it s'(1) by (simp add: receive_loop.simps [of fsz "(s, n, img)"] inc k)
    moreover have "incoming s' = drop (nat (fsz - n)) (incoming s)"
      using s'(2) by (simp add: inc k)
    ultimately show ?thesis by blast
  qed
qed

lemma loop_reach_front:
  assumes "loop_reach fsz st1 st'" and "fst (snd st) < fsz" and "recv_iter fsz st = Some st1"
  shows "loop_reach fsz st st'"
  using assms
proof (induction rule: loop_reach.induct)
  case start
  then show ?case by (blast intro: loop_reach.intros)
next
  case (iter st2 st3)
  then show ?case by (blast intro: loop_reach.intros)
qed

text \<open>Where the loop returns, it returns a state of \<open>loop_reach\<close> at which the guard fails.\<close>

lemma receive_loop_reach:
  assumes "receive_loop fsz st = Some st'"
  shows "loop_reach fsz st st' \<and> \<not> fst (snd st') < fsz"
proof (rule receive_loop.raw_induct
    [where P = "\<lambda>fsz st st'. loop_reach fsz st st' \<and> \<not> fst (snd st') < fsz", OF _ assms])
  fix f fsz st st'
  assume IH: "\<And>fsz st st'. f fsz st = Some st' \<Longrightarrow> loop_reach fsz st st' \<and> \<not> fst (snd st') < fsz"
    and eq: "(if fst (snd st) < fsz
              then case recv_iter fsz st of None \<Rightarrow> None | Some st' \<Rightarrow> f fsz st'
              else Some st) = Some st'"
  show "loop_reach fsz st st' \<and> \<not> fst (snd st') < fsz"
  proof (cases "fst (snd st) < fsz")
    case False
    with eq show ?thesis by (auto intro: loop_reach.start)
  next
    case True
    with eq obtain st1 where it: "recv_iter fsz st = Some st1" and f: "f fsz st1 = Some st'"
      by (auto split: option.splits)
    from IH [OF f] loop_reach_front [OF _ True it] show ?thesis by blast
  qed
qed

lemma read_trace_total:
  "read_trace fsz got log \<Longrightarrow> got + int (length (concat (map snd log))) = fsz"
  by (induction fsz got log rule: read_trace.induct) auto

lemma receive_loop_trace:
  assumes "receive_loop fsz st = Some st'"
  shows "\<exists>log. rlog (fst st') = rlog (fst st) @ log
     \<and> (fst (snd st) \<le> fsz \<longrightarrow> read_trace fsz (fst (snd st)) log)
     \<and> snd (snd st') = snd (snd st) @ concat (map snd log)"
proof (rule receive_loop.raw_induct
    [where P = "\<lambda>fsz st st'. \<exists>log. rlog (fst st') = rlog (fst st) @ log
       \<and> (fst (snd st) \<le> fsz \<longrightarrow> read_trace fsz (fst (snd st)) log)
       \<and> snd (snd st') = snd (snd st) @ concat (map snd log)", OF _ assms])
  fix f fsz st st'
  assume IH: "\<And>fsz st st'. f fsz st = Some st' \<Longrightarrow>
      \<exists>log. rlog (fst st') = rlog (fst st) @ log
        \<and> (fst (snd st) \<le> fsz \<longrightarrow> read_trace fsz (fst (snd st)) log)
        \<and> snd (snd st') = snd (snd st) @ concat (map snd log)"
    and eq: "(if fst (snd st) < fsz
              then case recv_iter fsz st of None \<Rightarrow> None | Some st' \<Rightarrow> f fsz st'
              else Some st) = Some st'"
  obtain s n img where st: "st = (s, n, img)" by (cases st)
  show "\<exists>log. rlog (fst st') = rlog (fst st) @ log
        \<and> (fst (snd st) \<le> fsz \<longrightarrow> read_trace fsz (fst (snd st)) log)
        \<and> snd (snd st') = snd (snd st) @ concat (map snd log)"
  proof (cases "n < fsz")
    case False
    with eq st have "st' = st" by simp
    with False st show ?thesis by (intro exI [of _ "[]"]) auto
  next
    case True
    with eq st obtain st1 where it: "recv_iter fsz (s, n, img) = Some st1" and f: "f fsz st1 = Some st'"
      by (auto split: option.splits)
    obtain s1 n1 img1 where st1: "st1 = (s1, n1, img1)" by (cases st1)
    from recv_iter_SomeD [OF it [unfolded st1] True]
    obtain d where d: "n1 = n + int (length d)" "img1 = img @ d"
      "rlog s1 = rlog s @ [(nat (min 1024 (fsz - n)), d)]" "int (length d) \<le> min 1024 (fsz - n)"
      by blast
    from IH [OF f] st1 obtain log where log: "rlog (fst st') = rlog s1 @ log"
      "n1 \<le> fsz \<longrightarrow> read_trace fsz n1 log" "snd (snd st') = img1 @ concat (map snd log)"
      by auto
    have n1: "n1 \<le> fsz" using d(1,4) by simp
    let ?log = "(nat (min 1024 (fsz - n)), d) # log"
    have "rlog (fst st') = rlog (fst st) @ ?log" using log(1) d(3) st by simp
    moreover have "read_trace fsz (fst (snd st)) ?log" using log(2) n1 d(1) True st by simp
    moreover have "snd (snd st') = snd (snd st) @ concat (map snd ?log)" using log(3) d(2) st by simp
    ultimately show ?thesis by blast
  qed
qed

lemma loop_reach_inv:
  assumes "loop_reach fsz (s0, 0, []) st"
  shows "fst (snd st) = int (length (snd (snd st)))
     \<and> incoming s0 = snd (snd st) @ incoming (fst st)
     \<and> (0 \<le> fsz \<longrightarrow> fst (snd st) \<le> fsz)"
  using assms
proof (induction rule: loop_reach.induct)
  case start
  show ?case by simp
next
  case (iter st1 st2)
  obtain s1 n1 img1 where st1: "st1 = (s1, n1, img1)" by (cases st1)
  obtain s2 n2 img2 where st2: "st2 = (s2, n2, img2)" by (cases st2)
  from iter.hyps(2) st1 have g: "n1 < fsz" by simp
  from recv_iter_SomeD [OF iter.hyps(3) [unfolded st1 st2] g]
  obtain d where d: "n2 = n1 + int (length d)" "img2 = img1 @ d" "incoming s1 = d @ incoming s2"
    "int (length d) \<le> min 1024 (fsz - n1)"
    by blast
  with iter.IH st1 st2 show ?case by auto
qed

subsection \<open>The acknowledgment wait\<close>

lemma recv_decode_InrD:
  assumes "recv_decode s = Some (Inr (msg, s1))"
  shows "\<exists>d. recv s 1024 = Some (d, s1) \<and> utf8_decode d = Some msg"
  using assms by (auto simp: recv_decode_def split: option.splits)

lemma waiting_for_ack_accepts:
  assumes "recv s 1024 = Some (d, s1)" and "utf8_decode d = Some (ack_text frame)"
  shows "waiting_for_ack s frame = Some (Inr s1)"
  using assms by (simp add: waiting_for_ack_def recv_decode_def ack_loop.simps [of s1])

lemma waiting_for_ack_discards:
  assumes "recv s 1024 = Some (d, s1)" and "utf8_decode d = Some t" and "t \<noteq> ack_text frame"
  shows "waiting_for_ack s frame = waiting_for_ack s1 frame"
proof -
  have "waiting_for_ack s frame = ack_loop s1 t frame"
    using assms(1,2) by (simp add: waiting_for_ack_def recv_decode_def)
  also have "\<dots> = waiting_for_ack s1 frame"
    using assms(3) by (simp add: ack_loop.simps [of s1 t frame] waiting_for_ack_def)
  finally show ?thesis .
qed

lemma waiting_for_ack_raises:
  assumes "recv s 1024 = Some (d, s1)" and "utf8_decode d = None"
  shows "waiting_for_ack s frame = Some (Inl UnicodeDecodeError)"
  using assms by (simp add: waiting_for_ack_def recv_decode_def)

lemma ack_loop_returns:
  assumes "ack_loop s msg frame = Some (Inr s')"
  shows "if msg = ack_text frame then s' = s
     else (\<exists>log d. rlog s' = rlog s @ log @ [(1024, d)] \<and> utf8_decode d = Some (ack_text frame)
             \<and> discarded frame log \<and> sent s' = sent s)"
proof -
  have "\<forall>s'. r = Inr s' \<longrightarrow>
     (if msg = ack_text frame then s' = s
      else (\<exists>log d. rlog s' = rlog s @ log @ [(1024, d)] \<and> utf8_decode d = Some (ack_text frame)
              \<and> discarded frame log \<and> sent s' = sent s))"
    if "ack_loop s msg frame = Some r" for r
  proof (rule ack_loop.raw_induct
      [where P = "\<lambda>s msg frame r. \<forall>s'. r = Inr s' \<longrightarrow>
         (if msg = ack_text frame then s' = s
          else (\<exists>log d. rlog s' = rlog s @ log @ [(1024, d)] \<and> utf8_decode d = Some (ack_text frame)
                  \<and> discarded frame log \<and> sent s' = sent s))", OF _ that])
    fix f s msg frame r
    assume IH: "\<And>s msg frame r. f s msg frame = Some r \<Longrightarrow>
        \<forall>s'. r = Inr s' \<longrightarrow>
         (if msg = ack_text frame then s' = s
          else (\<exists>log d. rlog s' = rlog s @ log @ [(1024, d)] \<and> utf8_decode d = Some (ack_text frame)
                  \<and> discarded frame log \<and> sent s' = sent s))"
      and eq: "(if msg \<noteq> ack_text frame
                then case recv_decode s of None \<Rightarrow> None | Some (Inl e) \<Rightarrow> Some (Inl e)
                     | Some (Inr (msg', s')) \<Rightarrow> f s' msg' frame
                else Some (Inr s)) = Some r"
    show "\<forall>s'. r = Inr s' \<longrightarrow>
         (if msg = ack_text frame then s' = s
          else (\<exists>log d. rlog s' = rlog s @ log @ [(1024, d)] \<and> utf8_decode d = Some (ack_text frame)
                  \<and> discarded frame log \<and> sent s' = sent s))"
    proof (intro allI impI)
      fix s'
      assume r: "r = Inr s'"
      show "if msg = ack_text frame then s' = s
          else (\<exists>log d. rlog s' = rlog s @ log @ [(1024, d)] \<and> utf8_decode d = Some (ack_text frame)
                  \<and> discarded frame log \<and> sent s' = sent s)"
      proof (cases "msg = ack_text frame")
        case True
        with eq r show ?thesis by simp
      next
        case False
        with eq r obtain msg1 s1 where rd: "recv_decode s = Some (Inr (msg1, s1))"
          and f: "f s1 msg1 frame = Some (Inr s')"
          by (auto split: option.splits sum.splits)
        from recv_decode_InrD [OF rd] obtain d1 where d1: "recv s 1024 = Some (d1, s1)"
          "utf8_decode d1 = Some msg1"
          by blast
        note s1 = recv_SomeD(3,4) [OF d1(1)]
        from IH [OF f] have ih: "if msg1 = ack_text frame then s' = s1
          else (\<exists>log d. rlog s' = rlog s1 @ log @ [(1024, d)] \<and> utf8_decode d = Some (ack_text frame)
                  \<and> discarded frame log \<and> sent s' = sent s1)"
          by simp
        have "\<exists>log d. rlog s' = rlog s @ log @ [(1024, d)] \<and> utf8_decode d = Some (ack_text frame)
                  \<and> discarded frame log \<and> sent s' = sent s"
        proof (cases "msg1 = ack_text frame")
          case True
          with ih s1 d1(2) have "rlog s' = rlog s @ [] @ [(1024, d1)]
               \<and> utf8_decode d1 = Some (ack_text frame) \<and> discarded frame [] \<and> sent s' = sent s"
            by (simp add: discarded_def)
          then show ?thesis by blast
        next
          case False
          with ih obtain log d where l: "rlog s' = rlog s1 @ log @ [(1024, d)]"
            "utf8_decode d = Some (ack_text frame)" "discarded frame log" "sent s' = sent s1"
            by auto
          with False s1 d1(2) have "rlog s' = rlog s @ ((1024, d1) # log) @ [(1024, d)]
             \<and> utf8_decode d = Some (ack_text frame)
             \<and> discarded frame ((1024, d1) # log) \<and> sent s' = sent s"
            by (simp add: discarded_def)
          then show ?thesis by blast
        qed
        with False show ?thesis by simp
      qed
    qed
  qed
  from this [OF assms] show ?thesis by simp
qed

lemma waiting_for_ack_returns:
  assumes "waiting_for_ack s frame = Some (Inr s')"
  shows "\<exists>log d. rlog s' = rlog s @ log @ [(1024, d)] \<and> utf8_decode d = Some (ack_text frame)
     \<and> discarded frame log \<and> sent s' = sent s"
proof -
  from assms obtain msg1 s1 where rd: "recv_decode s = Some (Inr (msg1, s1))"
    and l: "ack_loop s1 msg1 frame = Some (Inr s')"
    by (auto simp: waiting_for_ack_def split: option.splits sum.splits)
  from recv_decode_InrD [OF rd] obtain d1 where d1: "recv s 1024 = Some (d1, s1)"
    "utf8_decode d1 = Some msg1"
    by blast
  note s1 = recv_SomeD(3,4) [OF d1(1)]
  show ?thesis
  proof (cases "msg1 = ack_text frame")
    case True
    with ack_loop_returns [OF l] s1 d1(2)
    have "rlog s' = rlog s @ [] @ [(1024, d1)]
         \<and> utf8_decode d1 = Some (ack_text frame) \<and> discarded frame [] \<and> sent s' = sent s"
      by (simp add: discarded_def)
    then show ?thesis by blast
  next
    case False
    with ack_loop_returns [OF l] obtain log d where l: "rlog s' = rlog s1 @ log @ [(1024, d)]"
      "utf8_decode d = Some (ack_text frame)" "discarded frame log" "sent s' = sent s1"
      by auto
    with False s1 d1(2) have "rlog s' = rlog s @ ((1024, d1) # log) @ [(1024, d)]
       \<and> utf8_decode d = Some (ack_text frame)
       \<and> discarded frame ((1024, d1) # log) \<and> sent s' = sent s"
      by (simp add: discarded_def)
    then show ?thesis by blast
  qed
qed

lemma ack_loop_at_eof:
  assumes "ack_loop s msg frame = Some r"
  shows "incoming s = [] \<and> peer_closed s \<longrightarrow> msg = ack_text frame"
proof (rule ack_loop.raw_induct
    [where P = "\<lambda>s msg frame r. incoming s = [] \<and> peer_closed s \<longrightarrow> msg = ack_text frame",
      OF _ assms])
  fix f s msg frame r
  assume IH: "\<And>s msg frame r. f s msg frame = Some r \<Longrightarrow>
      incoming s = [] \<and> peer_closed s \<longrightarrow> msg = ack_text frame"
    and eq: "(if msg \<noteq> ack_text frame
              then case recv_decode s of None \<Rightarrow> None | Some (Inl e) \<Rightarrow> Some (Inl e)
                   | Some (Inr (msg', s')) \<Rightarrow> f s' msg' frame
              else Some (Inr s)) = Some r"
  show "incoming s = [] \<and> peer_closed s \<longrightarrow> msg = ack_text frame"
  proof (intro impI, rule ccontr)
    assume e: "incoming s = [] \<and> peer_closed s" and ne: "msg \<noteq> ack_text frame"
    let ?s1 = "s\<lparr>rlog := rlog s @ [(1024, [])]\<rparr>"
    from e have rd: "recv_decode s = Some (Inr ([], ?s1))"
      by (simp add: recv_decode_def recv_def)
    with eq ne have "f ?s1 [] frame = Some r" by simp
    from IH [OF this] e have "[] = ack_text frame" by simp
    with ack_text_nonempty [of frame] show False by simp
  qed
qed

lemma waiting_for_ack_at_eof:
  assumes "incoming s = []"
  shows "waiting_for_ack s frame = None"
proof (cases "peer_closed s")
  case False
  with assms show ?thesis by (simp add: waiting_for_ack_def recv_decode_def recv_def)
next
  case True
  let ?s1 = "s\<lparr>rlog := rlog s @ [(1024, [])]\<rparr>"
  from True assms have w: "waiting_for_ack s frame = ack_loop ?s1 [] frame"
    by (simp add: waiting_for_ack_def recv_decode_def recv_def)
  show ?thesis
  proof (cases "ack_loop ?s1 [] frame")
    case None
    with w show ?thesis by simp
  next
    case (Some r)
    from ack_loop_at_eof [OF Some] True assms have "[] = ack_text frame" by simp
    with ack_text_nonempty [of frame] show ?thesis by simp
  qed
qed

lemma waiting_for_ack_never:
  "list_all (\<lambda>d. utf8_decode d \<noteq> Some (ack_text frame)) (msgs s) \<Longrightarrow>
   waiting_for_ack s frame = None \<or> waiting_for_ack s frame = Some (Inl UnicodeDecodeError)"
proof (induction s rule: msgs.induct)
  case (1 s)
  show ?case
  proof (cases "incoming s = []")
    case True
    then show ?thesis by (simp add: waiting_for_ack_at_eof)
  next
    case False
    from recv_progress [OF False, of 1024] obtain d s1 where r: "recv s 1024 = Some (d, s1)"
      by auto
    with False have m: "msgs s = d # msgs s1" by (simp add: msgs.simps [of s])
    with "1.prems" have d: "utf8_decode d \<noteq> Some (ack_text frame)"
      and rest: "list_all (\<lambda>d. utf8_decode d \<noteq> Some (ack_text frame)) (msgs s1)"
      by simp_all
    show ?thesis
    proof (cases "utf8_decode d")
      case None
      with r show ?thesis by (simp add: waiting_for_ack_raises)
    next
      case (Some t)
      with d have "t \<noteq> ack_text frame" by simp
      from waiting_for_ack_discards [OF r Some this] "1.IH" [OF False r refl rest]
      show ?thesis by simp
    qed
  qed
qed

lemma waiting_for_ack_diverges:
  "list_all (\<lambda>d. case utf8_decode d of None \<Rightarrow> False | Some t \<Rightarrow> t \<noteq> ack_text frame) (msgs s) \<Longrightarrow>
   waiting_for_ack s frame = None"
proof (induction s rule: msgs.induct)
  case (1 s)
  show ?case
  proof (cases "incoming s = []")
    case True
    then show ?thesis by (simp add: waiting_for_ack_at_eof)
  next
    case False
    from recv_progress [OF False, of 1024] obtain d s1 where r: "recv s 1024 = Some (d, s1)"
      by auto
    with False have m: "msgs s = d # msgs s1" by (simp add: msgs.simps [of s])
    with "1.prems" obtain t where d: "utf8_decode d = Some t" "t \<noteq> ack_text frame"
      and rest: "list_all (\<lambda>d. case utf8_decode d of None \<Rightarrow> False | Some t \<Rightarrow> t \<noteq> ack_text frame) (msgs s1)"
      by (auto split: option.splits)
    from waiting_for_ack_discards [OF r d] "1.IH" [OF False r refl rest]
    show ?thesis by simp
  qed
qed

section \<open>The claims\<close>

text \<open>
  Claim C1. Round trip. For a file with contents \<open>body\<close>, \<open>send_frame\<close> returns, having
  sent chunks of at most 1024 bytes and nothing else; and a \<open>receive_frame\<close> with
  \<open>frame_size = len(body)\<close> on a connection whose stream starts with the bytes of these
  chunks, however the network cuts them into reads and whatever follows them, returns and
  leaves a file whose contents are exactly \<open>body\<close>; what follows is left unread.
\<close>

theorem frame_round_trip:
  assumes "fs frame_loc = Some body"
  shows "\<exists>chunks. send_frame sender fs frame_loc = Inr (sender\<lparr>sent := sent sender @ chunks\<rparr>)
     \<and> list_all (\<lambda>c. length c \<le> 1024) chunks
     \<and> (\<forall>receiver later fs' frame save_loc.
           incoming receiver = concat chunks @ later \<longrightarrow>
           (\<exists>receiver'.
              receive_frame receiver fs' frame (int (length body)) save_loc
                = Some (receiver', fs'(filename_of save_loc frame \<mapsto> body))
              \<and> incoming receiver' = later))"
proof -
  from send_frame_chunks [of fs frame_loc body sender] assms
  obtain chunks where c: "send_frame sender fs frame_loc = Inr (sender\<lparr>sent := sent sender @ chunks\<rparr>)"
    "concat chunks = body" "list_all (\<lambda>c. c \<noteq> [] \<and> length c \<le> 1024) chunks"
    by auto
  have "\<exists>receiver'.
          receive_frame receiver fs' frame (int (length body)) save_loc
            = Some (receiver', fs'(filename_of save_loc frame \<mapsto> body))
          \<and> incoming receiver' = later"
    if inc: "incoming receiver = concat chunks @ later" for receiver later fs' frame save_loc
  proof -
    have "nat (int (length body) - 0) \<le> length (incoming receiver)" using inc c(2) by simp
    from receive_loop_total [OF _ this, of "[]"] inc c(2)
    obtain receiver' where
      "receive_loop (int (length body)) (receiver, 0, []) = Some (receiver', int (length body), body)"
      "incoming receiver' = later"
      by auto
    then show ?thesis by (auto simp: receive_frame_def)
  qed
  moreover have "list_all (\<lambda>c. length c \<le> 1024) chunks"
    using c(3) by (simp add: list_all_iff)
  ultimately show ?thesis using c(1) by blast
qed

theorem frame_round_trip_witness:
  "[py ''a.jpg'' \<mapsto> [1, 10, 2, 3 :: byte]] (py ''a.jpg'') = Some [1, 10, 2, 3]
   \<and> send_frame \<lparr>incoming = [], peer_closed = False, segs = [], rlog = [], sent = []\<rparr>
        [py ''a.jpg'' \<mapsto> [1, 10, 2, 3]] (py ''a.jpg'')
      = Inr \<lparr>incoming = [], peer_closed = False, segs = [], rlog = [], sent = [[1, 10], [2, 3]]\<rparr>
   \<and> (\<exists>receiver'.
         receive_frame \<lparr>incoming = [1, 10, 2, 3, 9], peer_closed = False, segs = [0, 5], rlog = [], sent = []\<rparr>
           Map.empty 0 4 (py ''save/'')
           = Some (receiver', [filename_of (py ''save/'') 0 \<mapsto> [1, 10, 2, 3]])
         \<and> incoming receiver' = [9])"
proof -
  let ?fs = "[py ''a.jpg'' \<mapsto> [1, 10, 2, 3 :: byte]]"
  let ?s = "\<lparr>incoming = [] :: byte list, peer_closed = False, segs = [], rlog = [], sent = []\<rparr>"
  let ?s' = "\<lparr>incoming = [] :: byte list, peer_closed = False, segs = [], rlog = [], sent = [[1, 10], [2, 3]]\<rparr>"
  let ?r = "\<lparr>incoming = [1, 10, 2, 3, 9 :: byte], peer_closed = False, segs = [0, 5], rlog = [], sent = []\<rparr>"
  have h1: "?fs (py ''a.jpg'') = Some [1, 10, 2, 3]" by simp
  have h2: "send_frame ?s ?fs (py ''a.jpg'') = Inr ?s'"
    by (simp add: send_frame_def send_loop.simps send_def)
  from frame_round_trip [of ?fs "py ''a.jpg''" "[1, 10, 2, 3]" ?s, OF h1] obtain chunks where
    c: "send_frame ?s ?fs (py ''a.jpg'') = Inr (?s\<lparr>sent := sent ?s @ chunks\<rparr>)"
    and r: "\<And>receiver later fs' frame save_loc.
           incoming receiver = concat chunks @ later \<Longrightarrow>
           (\<exists>receiver'.
              receive_frame receiver fs' frame (int (length [1, 10, 2, 3 :: byte])) save_loc
                = Some (receiver', fs'(filename_of save_loc frame \<mapsto> [1, 10, 2, 3]))
              \<and> incoming receiver' = later)"
    by blast
  from c h2 have "chunks = [[1, 10], [2, 3]]" by simp
  then have "incoming ?r = concat chunks @ [9]" by simp
  from r [OF this, of Map.empty 0 "py ''save/''"] h1 h2 show ?thesis by simp
qed

text \<open>
  Claim C2. For a non-negative \<open>frame_size\<close>, whenever \<open>receive_frame\<close> returns, the file
  it wrote holds exactly \<open>frame_size\<close> bytes. The reads it made are those of
  \<open>read_trace\<close>: each one was made while fewer than \<open>frame_size\<close> bytes had come and asked
  for 1024 bytes, or for the remaining count when that is smaller, and the loop stopped
  when the count was \<open>frame_size\<close>; the file holds what these reads returned, in order.
\<close>

theorem receive_frame_writes_expected_size:
  assumes "0 \<le> frame_size"
    and "receive_frame client_sock fs frame frame_size save_loc = Some (s', fs')"
  shows "\<exists>img log. fs' = fs(filename_of save_loc frame \<mapsto> img) \<and> int (length img) = frame_size
     \<and> rlog s' = rlog client_sock @ log \<and> read_trace frame_size 0 log
     \<and> concat (map snd log) = img"
proof -
  from assms(2) obtain n img where l: "receive_loop frame_size (client_sock, 0, []) = Some (s', n, img)"
    and fs': "fs' = fs(filename_of save_loc frame \<mapsto> img)"
    by (auto simp: receive_frame_def split: option.splits)
  from receive_loop_trace [OF l] assms(1)
  obtain log where log: "rlog s' = rlog client_sock @ log" "read_trace frame_size 0 log"
    "img = concat (map snd log)"
    by auto
  from read_trace_total [OF log(2)] log(3) have "int (length img) = frame_size" by simp
  with fs' log show ?thesis by blast
qed

theorem receive_frame_writes_expected_size_witness:
  "(0::int) \<le> 4
   \<and> receive_frame \<lparr>incoming = [1, 2, 3, 4, 5], peer_closed = False, segs = [1, 0], rlog = [], sent = []\<rparr>
        Map.empty 7 4 (py ''out/'')
      = Some (\<lparr>incoming = [5], peer_closed = False, segs = [],
               rlog = [(4, [1, 2]), (2, [3]), (1, [4])], sent = []\<rparr>,
              [filename_of (py ''out/'') 7 \<mapsto> [1, 2, 3, 4]])
   \<and> (\<exists>img log. [filename_of (py ''out/'') 7 \<mapsto> [1, 2, 3, 4 :: byte]] = Map.empty(filename_of (py ''out/'') 7 \<mapsto> img)
        \<and> int (length img) = 4 \<and> [(4, [1, 2]), (2, [3]), (1, [4])] = [] @ log
        \<and> read_trace 4 0 log \<and> concat (map snd log) = img)"
proof -
  have h1: "(0::int) \<le> 4" by simp
  have h2: "receive_frame \<lparr>incoming = [1, 2, 3, 4, 5], peer_closed = False, segs = [1, 0], rlog = [], sent = []\<rparr>
        Map.empty 7 4 (py ''out/'')
      = Some (\<lparr>incoming = [5], peer_closed = False, segs = [],
               rlog = [(4, [1, 2]), (2, [3]), (1, [4])], sent = []\<rparr>,
              [filename_of (py ''out/'') 7 \<mapsto> [1, 2, 3, 4]])"
    by (simp add: receive_frame_def receive_loop.simps recv_iter_def recv_def granted_def)
  from receive_frame_writes_expected_size [OF h1 h2] h1 h2 show ?thesis by simp
qed

text \<open>
  Claim C3, as amended. The size announcement, the body transfer and the acknowledgment
  wait are three operations. \<open>send_frame_size\<close> computes the exact byte length of the
  file and sends it as a control message. A call of \<open>send_frame\<close> performs the body
  transfer only: it sends the bytes of the file as non-empty chunks of at most 1024 bytes,
  sends nothing else and reads nothing from the connection. The wait is
  \<open>waiting_for_ack\<close>: a caller that runs the three in this order has, when the wait
  returns, sent the size and then the body, and last read the acknowledgment of the frame.
\<close>

theorem send_frame_sends_body_only:
  assumes "fs frame_loc = Some body"
  shows "send_frame_size client_socket fs frame_loc
       = Inr (client_socket\<lparr>sent := sent client_socket @ [map of_nat (str (int (length body)))]\<rparr>)
     \<and> (\<exists>chunks. send_frame client_socket fs frame_loc
                    = Inr (client_socket\<lparr>sent := sent client_socket @ chunks\<rparr>)
           \<and> concat chunks = body \<and> list_all (\<lambda>c. c \<noteq> [] \<and> length c \<le> 1024) chunks)
     \<and> (\<forall>s1 s2 s3 frame.
           send_frame_size client_socket fs frame_loc = Inr s1
           \<and> send_frame s1 fs frame_loc = Inr s2
           \<and> waiting_for_ack s2 frame = Some (Inr s3) \<longrightarrow>
           (\<exists>chunks log d.
              sent s3 = sent client_socket @ [map of_nat (str (int (length body)))] @ chunks
              \<and> concat chunks = body
              \<and> rlog s3 = rlog client_socket @ log @ [(1024, d)]
              \<and> utf8_decode d = Some (ack_text frame)))"
proof (intro conjI allI impI)
  let ?m = "map of_nat (str (int (length body))) :: byte list"
  show a: "send_frame_size client_socket fs frame_loc
       = Inr (client_socket\<lparr>sent := sent client_socket @ [?m]\<rparr>)"
    using send_frame_size_ok [of fs frame_loc body client_socket] assms by (simp add: send_def)
  show "\<exists>chunks. send_frame client_socket fs frame_loc
                    = Inr (client_socket\<lparr>sent := sent client_socket @ chunks\<rparr>)
           \<and> concat chunks = body \<and> list_all (\<lambda>c. c \<noteq> [] \<and> length c \<le> 1024) chunks"
    using send_frame_chunks [of fs frame_loc body client_socket] assms by simp
  fix s1 s2 s3 frame
  assume h: "send_frame_size client_socket fs frame_loc = Inr s1
           \<and> send_frame s1 fs frame_loc = Inr s2
           \<and> waiting_for_ack s2 frame = Some (Inr s3)"
  with a have s1: "s1 = client_socket\<lparr>sent := sent client_socket @ [?m]\<rparr>" by simp
  from send_frame_chunks [of fs frame_loc body s1] assms h
  obtain chunks where c: "s2 = s1\<lparr>sent := sent s1 @ chunks\<rparr>" "concat chunks = body"
    by auto
  from h have "waiting_for_ack s2 frame = Some (Inr s3)" by simp
  from waiting_for_ack_returns [OF this]
  obtain log d where l: "rlog s3 = rlog s2 @ log @ [(1024, d)]"
    "utf8_decode d = Some (ack_text frame)" "sent s3 = sent s2"
    by blast
  from s1 c l have "sent s3 = sent client_socket @ [?m] @ chunks \<and> concat chunks = body
      \<and> rlog s3 = rlog client_socket @ log @ [(1024, d)] \<and> utf8_decode d = Some (ack_text frame)"
    by simp
  then show "\<exists>chunks log d.
              sent s3 = sent client_socket @ [?m] @ chunks
              \<and> concat chunks = body
              \<and> rlog s3 = rlog client_socket @ log @ [(1024, d)]
              \<and> utf8_decode d = Some (ack_text frame)"
    by blast
qed

theorem send_frame_sends_body_only_witness:
  "[py ''a.jpg'' \<mapsto> [1, 2, 3 :: byte]] (py ''a.jpg'') = Some [1, 2, 3]
   \<and> send_frame_size
        \<lparr>incoming = map of_nat (py ''OK FRAME 0''), peer_closed = False, segs = [], rlog = [], sent = []\<rparr>
        [py ''a.jpg'' \<mapsto> [1, 2, 3]] (py ''a.jpg'')
      = Inr \<lparr>incoming = map of_nat (py ''OK FRAME 0''), peer_closed = False, segs = [], rlog = [],
              sent = [map of_nat (py ''3'')]\<rparr>
   \<and> send_frame
        \<lparr>incoming = map of_nat (py ''OK FRAME 0''), peer_closed = False, segs = [], rlog = [],
           sent = [map of_nat (py ''3'')]\<rparr>
        [py ''a.jpg'' \<mapsto> [1, 2, 3]] (py ''a.jpg'')
      = Inr \<lparr>incoming = map of_nat (py ''OK FRAME 0''), peer_closed = False, segs = [], rlog = [],
              sent = [map of_nat (py ''3''), [1, 2, 3]]\<rparr>
   \<and> waiting_for_ack
        \<lparr>incoming = map of_nat (py ''OK FRAME 0''), peer_closed = False, segs = [], rlog = [],
           sent = [map of_nat (py ''3''), [1, 2, 3]]\<rparr> 0
      = Some (Inr \<lparr>incoming = [], peer_closed = False, segs = [],
                    rlog = [(1024, map of_nat (py ''OK FRAME 0''))],
                    sent = [map of_nat (py ''3''), [1, 2, 3]]\<rparr>)
   \<and> (\<exists>chunks log d.
         [map of_nat (py ''3''), [1, 2, 3 :: byte]] = [] @ [map of_nat (str (int (length [1, 2, 3 :: byte])))] @ chunks
         \<and> concat chunks = [1, 2, 3]
         \<and> [(1024, map of_nat (py ''OK FRAME 0''))] = [] @ log @ [(1024, d)]
         \<and> utf8_decode d = Some (ack_text 0))"
proof -
  let ?fs = "[py ''a.jpg'' \<mapsto> [1, 2, 3 :: byte]]"
  let ?s = "\<lparr>incoming = map of_nat (py ''OK FRAME 0'') :: byte list, peer_closed = False,
              segs = [], rlog = [], sent = []\<rparr>"
  let ?s1 = "\<lparr>incoming = map of_nat (py ''OK FRAME 0'') :: byte list, peer_closed = False,
              segs = [], rlog = [], sent = [map of_nat (py ''3'')]\<rparr>"
  let ?s2 = "\<lparr>incoming = map of_nat (py ''OK FRAME 0'') :: byte list, peer_closed = False,
              segs = [], rlog = [], sent = [map of_nat (py ''3''), [1, 2, 3]]\<rparr>"
  let ?s3 = "\<lparr>incoming = [] :: byte list, peer_closed = False, segs = [],
              rlog = [(1024, map of_nat (py ''OK FRAME 0''))],
              sent = [map of_nat (py ''3''), [1, 2, 3]]\<rparr>"
  have h0: "?fs (py ''a.jpg'') = Some [1, 2, 3]" by simp
  have h1: "send_frame_size ?s ?fs (py ''a.jpg'') = Inr ?s1"
    by (simp add: send_frame_size_def encode_ascii_def send_def str_def str_nat.simps py_def)
  have h2: "send_frame ?s1 ?fs (py ''a.jpg'') = Inr ?s2"
    by (simp add: send_frame_def send_loop.simps send_def)
  have h3: "waiting_for_ack ?s2 0 = Some (Inr ?s3)"
    by (simp add: waiting_for_ack_def ack_loop.simps recv_decode_def recv_def granted_def
        ack_text_def py_def str_def str_nat.simps)
  note t = send_frame_sends_body_only [of ?fs "py ''a.jpg''" "[1, 2, 3]" ?s, OF h0,
      THEN conjunct2, THEN conjunct2, rule_format, of ?s1 ?s2 0 ?s3]
  from h1 h2 h3 have "send_frame_size ?s ?fs (py ''a.jpg'') = Inr ?s1
      \<and> send_frame ?s1 ?fs (py ''a.jpg'') = Inr ?s2 \<and> waiting_for_ack ?s2 0 = Some (Inr ?s3)"
    by (intro conjI)
  from t [OF this] h0 h1 h2 h3 show ?thesis by simp
qed

text \<open>
  Claim C3 as stated fails: on a connection on which no acknowledgment ever arrives, a
  call of \<open>send_frame\<close> for a file of three bytes returns, having sent these three bytes
  and no size message, and having read nothing; a wait for the acknowledgment on this
  connection would not return.
\<close>

theorem send_frame_no_size_no_ack_wait:
  "send_frame \<lparr>incoming = [], peer_closed = False, segs = [], rlog = [], sent = []\<rparr>
     [py ''a.jpg'' \<mapsto> [1, 2, 3]] (py ''a.jpg'')
   = Inr \<lparr>incoming = [], peer_closed = False, segs = [], rlog = [], sent = [[1, 2, 3]]\<rparr>
   \<and> waiting_for_ack
       \<lparr>incoming = [], peer_closed = False, segs = [], rlog = [], sent = [[1, 2, 3]]\<rparr> 0 = None"
  by (simp add: send_frame_def send_loop.simps send_def waiting_for_ack_at_eof)

text \<open>
  Claim C4, as amended. \<open>waiting_for_ack\<close> returns only after a read whose bytes decode to
  exactly \<open>OK FRAME n\<close>, the text \<open>ack_text frame\<close>: the reads of a call that returned are
  reads of 1024 bytes that decoded to other texts and were discarded, and then the
  matching one. A read that decodes to another text is discarded and the wait goes on
  from the next read. A read that is not valid UTF-8 ends the call with
  \<open>UnicodeDecodeError\<close>. On a stream none of whose reads is the matching message the
  call never returns; if all of them decode, it does not end at all, since there is no
  timeout.
\<close>

theorem waiting_for_ack_spec:
  "(\<forall>s'. waiting_for_ack client_socket frame = Some (Inr s') \<longrightarrow>
      (\<exists>log d. rlog s' = rlog client_socket @ log @ [(1024, d)]
         \<and> utf8_decode d = Some (ack_text frame) \<and> discarded frame log))
   \<and> (\<forall>d s1 t. recv client_socket 1024 = Some (d, s1) \<and> utf8_decode d = Some t
         \<and> t \<noteq> ack_text frame \<longrightarrow>
         waiting_for_ack client_socket frame = waiting_for_ack s1 frame)
   \<and> (\<forall>d s1. recv client_socket 1024 = Some (d, s1) \<and> utf8_decode d = None \<longrightarrow>
         waiting_for_ack client_socket frame = Some (Inl UnicodeDecodeError))
   \<and> (list_all (\<lambda>d. utf8_decode d \<noteq> Some (ack_text frame)) (msgs client_socket) \<longrightarrow>
         (\<forall>s'. waiting_for_ack client_socket frame \<noteq> Some (Inr s')))
   \<and> (list_all (\<lambda>d. case utf8_decode d of None \<Rightarrow> False | Some t \<Rightarrow> t \<noteq> ack_text frame)
         (msgs client_socket) \<longrightarrow>
         waiting_for_ack client_socket frame = None)"
proof (intro conjI allI impI)
  fix s'
  assume "waiting_for_ack client_socket frame = Some (Inr s')"
  from waiting_for_ack_returns [OF this]
  show "\<exists>log d. rlog s' = rlog client_socket @ log @ [(1024, d)]
         \<and> utf8_decode d = Some (ack_text frame) \<and> discarded frame log"
    by blast
next
  fix d s1 t
  assume "recv client_socket 1024 = Some (d, s1) \<and> utf8_decode d = Some t \<and> t \<noteq> ack_text frame"
  then show "waiting_for_ack client_socket frame = waiting_for_ack s1 frame"
    using waiting_for_ack_discards [of client_socket d s1 t frame] by simp
next
  fix d s1
  assume "recv client_socket 1024 = Some (d, s1) \<and> utf8_decode d = None"
  then show "waiting_for_ack client_socket frame = Some (Inl UnicodeDecodeError)"
    using waiting_for_ack_raises [of client_socket d s1 frame] by simp
next
  fix s'
  assume "list_all (\<lambda>d. utf8_decode d \<noteq> Some (ack_text frame)) (msgs client_socket)"
  from waiting_for_ack_never [OF this]
  show "waiting_for_ack client_socket frame \<noteq> Some (Inr s')"
    by auto
next
  assume "list_all (\<lambda>d. case utf8_decode d of None \<Rightarrow> False | Some t \<Rightarrow> t \<noteq> ack_text frame)
         (msgs client_socket)"
  then show "waiting_for_ack client_socket frame = None"
    by (rule waiting_for_ack_diverges)
qed

theorem waiting_for_ack_spec_witness:
  "waiting_for_ack
     \<lparr>incoming = map of_nat (py ''OK FRAME 1'' @ py ''OK FRAME 2''), peer_closed = True,
        segs = [9], rlog = [], sent = []\<rparr> 2
   = Some (Inr \<lparr>incoming = [], peer_closed = True, segs = [],
                 rlog = [(1024, map of_nat (py ''OK FRAME 1'')), (1024, map of_nat (py ''OK FRAME 2''))],
                 sent = []\<rparr>)
   \<and> (\<exists>log d. [(1024, map of_nat (py ''OK FRAME 1'')), (1024, map of_nat (py ''OK FRAME 2''))]
                 = [] @ log @ [(1024, d :: byte list)]
         \<and> utf8_decode d = Some (ack_text 2) \<and> discarded 2 log)
   \<and> list_all (\<lambda>d. case utf8_decode d of None \<Rightarrow> False | Some t \<Rightarrow> t \<noteq> ack_text 2)
        (msgs \<lparr>incoming = map of_nat (py ''OK FRAME 1''), peer_closed = True,
                segs = [], rlog = [], sent = []\<rparr>)
   \<and> waiting_for_ack
        \<lparr>incoming = map of_nat (py ''OK FRAME 1''), peer_closed = True,
           segs = [], rlog = [], sent = []\<rparr> 2 = None"
proof -
  let ?s = "\<lparr>incoming = map of_nat (py ''OK FRAME 1'' @ py ''OK FRAME 2'') :: byte list,
              peer_closed = True, segs = [9], rlog = [], sent = []\<rparr>"
  let ?q = "\<lparr>incoming = map of_nat (py ''OK FRAME 1'') :: byte list, peer_closed = True,
              segs = [], rlog = [], sent = []\<rparr>"
  have h1: "waiting_for_ack ?s 2
    = Some (Inr \<lparr>incoming = [], peer_closed = True, segs = [],
                 rlog = [(1024, map of_nat (py ''OK FRAME 1'')), (1024, map of_nat (py ''OK FRAME 2''))],
                 sent = []\<rparr>)"
    by (simp add: waiting_for_ack_def ack_loop.simps recv_decode_def recv_def granted_def
        ack_text_def py_def str_def str_nat.simps)
  have h2: "list_all (\<lambda>d. case utf8_decode d of None \<Rightarrow> False | Some t \<Rightarrow> t \<noteq> ack_text 2) (msgs ?q)"
    by (simp add: msgs.simps recv_def granted_def ack_text_def py_def str_def str_nat.simps)
  note a = waiting_for_ack_spec [of ?s 2, THEN conjunct1, rule_format, OF h1]
  note b = waiting_for_ack_spec [of ?q 2, THEN conjunct2, THEN conjunct2, THEN conjunct2,
      THEN conjunct2, rule_format, OF h2]
  from a b h1 h2 show ?thesis by simp
qed

text \<open>
  Claim C4 as stated fails on a read that is not valid UTF-8: the message does not match,
  yet it is not discarded and reading does not go on. Here the acknowledgment for frame 0
  follows the byte \<open>0xFF\<close>, and the call ends with the error without reading it.
\<close>

theorem waiting_for_ack_undecodable:
  "waiting_for_ack
     \<lparr>incoming = 0xFF # map of_nat (py ''OK FRAME 0''), peer_closed = False,
        segs = [0], rlog = [], sent = []\<rparr> 0
   = Some (Inl UnicodeDecodeError)"
  by (simp add: waiting_for_ack_def recv_decode_def recv_def granted_def py_def)

text \<open>
  Claim C5, as amended. \<open>send_frame_ack\<close> for frame \<open>n\<close> sends exactly one message, the
  ASCII bytes of \<open>OK FRAME n\<close>, which decode to that same text. When one read of the
  sender returns this message whole and alone, a \<open>waiting_for_ack\<close> for frame \<open>n\<close> returns
  at once, and a \<open>waiting_for_ack\<close> for any other frame \<open>m\<close> discards it and goes on
  waiting. The acknowledgment has no delimiter and no length, so nothing is promised for a
  read that returns a part of it or more than it.
\<close>

theorem ack_round_trip:
  "send_frame_ack receiver n
     = Inr (receiver\<lparr>sent := sent receiver @ [map of_nat (py ''OK FRAME '' @ str n)]\<rparr>)
   \<and> utf8_decode (map of_nat (py ''OK FRAME '' @ str n)) = Some (py ''OK FRAME '' @ str n)
   \<and> (\<forall>sender s' m.
         recv sender 1024 = Some (map of_nat (py ''OK FRAME '' @ str n), s') \<longrightarrow>
         waiting_for_ack sender n = Some (Inr s')
         \<and> (m \<noteq> n \<longrightarrow> waiting_for_ack sender m = waiting_for_ack s' m))"
proof (intro conjI allI impI)
  show "send_frame_ack receiver n
     = Inr (receiver\<lparr>sent := sent receiver @ [map of_nat (py ''OK FRAME '' @ str n)]\<rparr>)"
    using send_frame_ack_ok [of receiver n] by (simp add: send_def ack_text_def)
  show d: "utf8_decode (map of_nat (py ''OK FRAME '' @ str n)) = Some (py ''OK FRAME '' @ str n)"
    using utf8_decode_ascii [OF ack_text_ascii [of n]] by (simp add: ack_text_def)
  fix sender s' m
  assume r: "recv sender 1024 = Some (map of_nat (py ''OK FRAME '' @ str n), s')"
  from waiting_for_ack_accepts [OF r] d
  show "waiting_for_ack sender n = Some (Inr s')" by (simp add: ack_text_def)
  assume "m \<noteq> n"
  then have "py ''OK FRAME '' @ str n \<noteq> ack_text m"
    using ack_text_inj [of n m] by (auto simp: ack_text_def)
  from waiting_for_ack_discards [OF r d this]
  show "waiting_for_ack sender m = waiting_for_ack s' m" .
qed

theorem ack_round_trip_witness:
  "recv \<lparr>incoming = map of_nat (py ''OK FRAME '' @ str 7), peer_closed = False, segs = [],
          rlog = [], sent = []\<rparr> 1024
   = Some (map of_nat (py ''OK FRAME '' @ str 7),
           \<lparr>incoming = [], peer_closed = False, segs = [],
              rlog = [(1024, map of_nat (py ''OK FRAME '' @ str 7))], sent = []\<rparr>)
   \<and> waiting_for_ack
        \<lparr>incoming = map of_nat (py ''OK FRAME '' @ str 7), peer_closed = False, segs = [],
           rlog = [], sent = []\<rparr> 7
     = Some (Inr \<lparr>incoming = [], peer_closed = False, segs = [],
                   rlog = [(1024, map of_nat (py ''OK FRAME '' @ str 7))], sent = []\<rparr>)
   \<and> (8::int) \<noteq> 7
   \<and> waiting_for_ack
        \<lparr>incoming = map of_nat (py ''OK FRAME '' @ str 7), peer_closed = False, segs = [],
           rlog = [], sent = []\<rparr> 8
     = None"
proof -
  let ?s = "\<lparr>incoming = map of_nat (py ''OK FRAME '' @ str 7) :: byte list, peer_closed = False,
              segs = [], rlog = [], sent = []\<rparr>"
  let ?s' = "\<lparr>incoming = [] :: byte list, peer_closed = False, segs = [],
              rlog = [(1024, map of_nat (py ''OK FRAME '' @ str 7))], sent = []\<rparr>"
  have h: "recv ?s 1024 = Some (map of_nat (py ''OK FRAME '' @ str 7), ?s')"
    by (simp add: recv_def granted_def py_def str_def str_nat.simps)
  have n: "(8::int) \<noteq> 7" by simp
  have e: "waiting_for_ack ?s' 8 = None" by (simp add: waiting_for_ack_at_eof)
  note t = ack_round_trip [of ?s 7, THEN conjunct2, THEN conjunct2, rule_format, OF h]
  from t [of 8, THEN conjunct1] t [of 8, THEN conjunct2, rule_format, OF n] h n e
  show ?thesis by simp
qed

text \<open>
  Claim C5 as stated fails, since \<open>waiting_for_ack\<close> compares whatever one read returned.
  The acknowledgment sent for frame 12, cut by the network after its tenth byte, is read as
  \<open>OK FRAME 1\<close> and ends a wait for frame 1, another frame number; and the acknowledgment
  sent for frame 7, cut after its fourth byte, is read as two texts that are both
  discarded, so that the wait for frame 7 never returns.
\<close>

theorem ack_cut_by_the_network:
  "send_frame_ack \<lparr>incoming = [], peer_closed = False, segs = [], rlog = [], sent = []\<rparr> 12
   = Inr \<lparr>incoming = [], peer_closed = False, segs = [], rlog = [],
           sent = [map of_nat (py ''OK FRAME 12'')]\<rparr>
   \<and> waiting_for_ack
       \<lparr>incoming = map of_nat (py ''OK FRAME 12''), peer_closed = False, segs = [9],
          rlog = [], sent = []\<rparr> 1
     = Some (Inr \<lparr>incoming = map of_nat (py ''2''), peer_closed = False, segs = [],
                   rlog = [(1024, map of_nat (py ''OK FRAME 1''))], sent = []\<rparr>)
   \<and> send_frame_ack \<lparr>incoming = [], peer_closed = False, segs = [], rlog = [], sent = []\<rparr> 7
     = Inr \<lparr>incoming = [], peer_closed = False, segs = [], rlog = [],
             sent = [map of_nat (py ''OK FRAME 7'')]\<rparr>
   \<and> waiting_for_ack
       \<lparr>incoming = map of_nat (py ''OK FRAME 7''), peer_closed = False, segs = [3],
          rlog = [], sent = []\<rparr> 7
     = None"
  by (simp add: send_frame_ack_def encode_ascii_def send_def waiting_for_ack_def ack_loop.simps
      recv_decode_def recv_def granted_def ack_text_def py_def str_def str_nat.simps)

text \<open>
  Claim C6. For a file with contents \<open>body\<close>, \<open>send_frame_size\<close> sends one message, the
  ASCII bytes of a decimal text, and \<open>send_frame\<close> on the same file then sends chunks; the
  text is \<open>str\<close> of the total number of bytes in these chunks, and its decimal value is
  that number.
\<close>

theorem size_message_matches_body:
  assumes "fs frame_loc = Some body"
  shows "\<exists>size_text chunks.
       send_frame_size client_socket fs frame_loc
         = Inr (client_socket\<lparr>sent := sent client_socket @ [map of_nat size_text]\<rparr>)
     \<and> send_frame (client_socket\<lparr>sent := sent client_socket @ [map of_nat size_text]\<rparr>) fs frame_loc
         = Inr (client_socket\<lparr>sent := sent client_socket @ [map of_nat size_text] @ chunks\<rparr>)
     \<and> utf8_decode (map of_nat size_text) = Some size_text
     \<and> size_text = str (int (length (concat chunks)))
     \<and> dec_value 0 size_text = length (concat chunks)"
proof -
  let ?t = "str (int (length body))"
  let ?s1 = "client_socket\<lparr>sent := sent client_socket @ [map of_nat ?t]\<rparr>"
  have a: "send_frame_size client_socket fs frame_loc = Inr ?s1"
    using send_frame_size_ok [of fs frame_loc body client_socket] assms by (simp add: send_def)
  from send_frame_chunks [of fs frame_loc body ?s1] assms
  obtain chunks where c: "send_frame ?s1 fs frame_loc = Inr (?s1\<lparr>sent := sent ?s1 @ chunks\<rparr>)"
    "concat chunks = body"
    by auto
  have "utf8_decode (map of_nat ?t) = Some ?t" by (rule utf8_decode_ascii [OF str_ascii])
  with a c dec_value_str [of "length body"] show ?thesis by (intro exI [of _ ?t] exI [of _ chunks]) simp
qed

theorem size_message_matches_body_witness:
  "[py ''a.jpg'' \<mapsto> [1, 10, 2, 3 :: byte]] (py ''a.jpg'') = Some [1, 10, 2, 3]
   \<and> send_frame_size \<lparr>incoming = [], peer_closed = False, segs = [], rlog = [], sent = []\<rparr>
        [py ''a.jpg'' \<mapsto> [1, 10, 2, 3]] (py ''a.jpg'')
      = Inr \<lparr>incoming = [], peer_closed = False, segs = [], rlog = [], sent = [map of_nat (py ''4'')]\<rparr>
   \<and> (\<exists>size_text chunks.
         send_frame_size \<lparr>incoming = [], peer_closed = False, segs = [], rlog = [], sent = []\<rparr>
           [py ''a.jpg'' \<mapsto> [1, 10, 2, 3]] (py ''a.jpg'')
         = Inr \<lparr>incoming = [], peer_closed = False, segs = [], rlog = [], sent = [map of_nat size_text]\<rparr>
         \<and> send_frame \<lparr>incoming = [], peer_closed = False, segs = [], rlog = [], sent = [map of_nat size_text]\<rparr>
             [py ''a.jpg'' \<mapsto> [1, 10, 2, 3]] (py ''a.jpg'')
           = Inr \<lparr>incoming = [], peer_closed = False, segs = [], rlog = [],
                   sent = [map of_nat size_text] @ chunks\<rparr>
         \<and> dec_value 0 size_text = length (concat chunks))"
proof -
  let ?fs = "[py ''a.jpg'' \<mapsto> [1, 10, 2, 3 :: byte]]"
  let ?s = "\<lparr>incoming = [] :: byte list, peer_closed = False, segs = [], rlog = [], sent = []\<rparr>"
  have h1: "?fs (py ''a.jpg'') = Some [1, 10, 2, 3]" by simp
  have h2: "send_frame_size ?s ?fs (py ''a.jpg'')
      = Inr \<lparr>incoming = [], peer_closed = False, segs = [], rlog = [], sent = [map of_nat (py ''4'')]\<rparr>"
    by (simp add: send_frame_size_def encode_ascii_def send_def str_def str_nat.simps py_def)
  from size_message_matches_body [of ?fs "py ''a.jpg''" "[1, 10, 2, 3]" ?s, OF h1]
  obtain size_text chunks where
    "send_frame_size ?s ?fs (py ''a.jpg'') = Inr (?s\<lparr>sent := sent ?s @ [map of_nat size_text]\<rparr>)"
    "send_frame (?s\<lparr>sent := sent ?s @ [map of_nat size_text]\<rparr>) ?fs (py ''a.jpg'')
       = Inr (?s\<lparr>sent := sent ?s @ [map of_nat size_text] @ chunks\<rparr>)"
    "dec_value 0 size_text = length (concat chunks)"
    by blast
  then have "\<exists>size_text chunks.
         send_frame_size ?s ?fs (py ''a.jpg'')
         = Inr \<lparr>incoming = [], peer_closed = False, segs = [], rlog = [], sent = [map of_nat size_text]\<rparr>
         \<and> send_frame \<lparr>incoming = [], peer_closed = False, segs = [], rlog = [], sent = [map of_nat size_text]\<rparr>
             ?fs (py ''a.jpg'')
           = Inr \<lparr>incoming = [], peer_closed = False, segs = [], rlog = [],
                   sent = [map of_nat size_text] @ chunks\<rparr>
         \<and> dec_value 0 size_text = length (concat chunks)"
    by (intro exI [of _ size_text] exI [of _ chunks]) simp
  with h1 h2 show ?thesis by blast
qed

text \<open>
  Claim C7. With \<open>frame_size = 0\<close>, \<open>receive_frame\<close> returns at once: the socket is
  unchanged (its log of reads included, so no read was made) and the output file exists
  and is empty. \<open>send_frame_ack\<close> for the frame then sends the text \<open>OK FRAME n\<close>.
\<close>

theorem receive_frame_size_zero:
  "receive_frame client_sock fs frame 0 save_loc
     = Some (client_sock, fs(filename_of save_loc frame \<mapsto> []))
   \<and> send_frame_ack client_sock frame
     = Inr (client_sock\<lparr>sent := sent client_sock @ [map of_nat (py ''OK FRAME '' @ str frame)]\<rparr>)"
  using send_frame_ack_ok [of client_sock frame]
  by (simp add: receive_frame_def receive_loop.simps [of 0 "(client_sock, 0, [])"] send_def ack_text_def)

text \<open>
  Claim C8, as amended. \<open>init_server_socket\<close> creates a socket and binds it to
  \<open>address:port\<close>, taking the address the host's own name resolves to when \<open>address\<close>
  is omitted (and port 5000 when \<open>port\<close> is), and returns the bound socket. The calls
  it makes are the creation of the socket, the two calls of the name look-up when the
  address is omitted, and the bind: it does not listen and accepts no connection.
\<close>

theorem init_server_socket_binds:
  assumes "address = Some a \<or> address = None \<and> hosts h (hostname h) = Some a"
    and "bindable h a (case port of None \<Rightarrow> 5000 | Some p \<Rightarrow> p)"
  shows "init_server_socket h address port
     = Inr (Bound a (case port of None \<Rightarrow> 5000 | Some p \<Rightarrow> p),
            h\<lparr>calls := calls h @ SocketCall
                 # (case address of None \<Rightarrow> [GetHostName, GetHostByName (hostname h)] | Some _ \<Rightarrow> [])
                 @ [Bind a (case port of None \<Rightarrow> 5000 | Some p \<Rightarrow> p)]\<rparr>)"
  using assms
  by (auto simp: init_server_socket_def local_address_def bind_socket_def)

theorem init_server_socket_binds_witness:
  "(None = Some (py ''10.0.0.7'')
     \<or> (None :: pystr option) = None
       \<and> hosts \<lparr>hostname = py ''pi'', hosts = [py ''pi'' \<mapsto> py ''10.0.0.7''],
                 bindable = \<lambda>a p. 0 \<le> p \<and> p < 65536, calls = []\<rparr>
            (hostname \<lparr>hostname = py ''pi'', hosts = [py ''pi'' \<mapsto> py ''10.0.0.7''],
                 bindable = \<lambda>a p. 0 \<le> p \<and> p < 65536, calls = []\<rparr>) = Some (py ''10.0.0.7''))
   \<and> bindable \<lparr>hostname = py ''pi'', hosts = [py ''pi'' \<mapsto> py ''10.0.0.7''],
                 bindable = \<lambda>a p. 0 \<le> p \<and> p < 65536, calls = []\<rparr> (py ''10.0.0.7'') 5000
   \<and> init_server_socket
        \<lparr>hostname = py ''pi'', hosts = [py ''pi'' \<mapsto> py ''10.0.0.7''],
           bindable = \<lambda>a p. 0 \<le> p \<and> p < 65536, calls = []\<rparr> None None
      = Inr (Bound (py ''10.0.0.7'') 5000,
             \<lparr>hostname = py ''pi'', hosts = [py ''pi'' \<mapsto> py ''10.0.0.7''],
                bindable = \<lambda>a p. 0 \<le> p \<and> p < 65536,
                calls = [SocketCall, GetHostName, GetHostByName (py ''pi''),
                         Bind (py ''10.0.0.7'') 5000]\<rparr>)"
proof -
  let ?h = "\<lparr>hostname = py ''pi'', hosts = [py ''pi'' \<mapsto> py ''10.0.0.7''],
              bindable = \<lambda>a p. 0 \<le> p \<and> p < (65536::int), calls = []\<rparr>"
  have h1: "(None :: pystr option) = Some (py ''10.0.0.7'')
     \<or> (None :: pystr option) = None \<and> hosts ?h (hostname ?h) = Some (py ''10.0.0.7'')"
    by simp
  have h2: "bindable ?h (py ''10.0.0.7'') (case None of None \<Rightarrow> 5000 | Some p \<Rightarrow> p)" by simp
  from init_server_socket_binds [OF h1 h2] h1 h2 show ?thesis by simp
qed

text \<open>
  Claim C8 as stated fails: the socket returned is bound and nothing more, and no
  connection was accepted before the return.
\<close>

theorem init_server_socket_no_accept:
  "init_server_socket
     \<lparr>hostname = py ''pi'', hosts = [py ''pi'' \<mapsto> py ''10.0.0.7''],
        bindable = \<lambda>a p. True, calls = []\<rparr> None (Some 5000)
   = Inr (Bound (py ''10.0.0.7'') 5000,
          \<lparr>hostname = py ''pi'', hosts = [py ''pi'' \<mapsto> py ''10.0.0.7''],
             bindable = \<lambda>a p. True,
             calls = [SocketCall, GetHostName, GetHostByName (py ''pi''),
                      Bind (py ''10.0.0.7'') 5000]\<rparr>)"
  by (simp add: init_server_socket_def local_address_def bind_socket_def)

text \<open>
  Claim C9, as amended. \<open>receive_bytes_to_string\<close> makes exactly one read, of at most 1024
  bytes. When the bytes read are valid UTF-8 it returns the decoded text with every
  newline removed, so the text returned holds no newline; when they are not, the call
  ends with \<open>UnicodeDecodeError\<close> and returns no text. When the read blocks for ever, so
  does the call.
\<close>

theorem receive_bytes_to_string_spec:
  "(recv client_sock 1024 = None \<longrightarrow> receive_bytes_to_string client_sock = None)
   \<and> (\<forall>byte_msg s'. recv client_sock 1024 = Some (byte_msg, s') \<longrightarrow>
         length byte_msg \<le> 1024 \<and> rlog s' = rlog client_sock @ [(1024, byte_msg)]
         \<and> (case utf8_decode byte_msg of
               None \<Rightarrow> receive_bytes_to_string client_sock = Some (Inl UnicodeDecodeError)
             | Some t \<Rightarrow>
                 receive_bytes_to_string client_sock = Some (Inr (filter (\<lambda>c. c \<noteq> 10) t, s'))
                 \<and> 10 \<notin> set (filter (\<lambda>c. c \<noteq> 10) t)))"
proof (intro conjI allI impI)
  assume "recv client_sock 1024 = None"
  then show "receive_bytes_to_string client_sock = None"
    by (simp add: receive_bytes_to_string_def)
next
  fix byte_msg s'
  assume r: "recv client_sock 1024 = Some (byte_msg, s')"
  from recv_SomeD(1) [OF r] show "length byte_msg \<le> 1024" .
  from recv_SomeD(3) [OF r] show "rlog s' = rlog client_sock @ [(1024, byte_msg)]" .
  from r show "case utf8_decode byte_msg of
               None \<Rightarrow> receive_bytes_to_string client_sock = Some (Inl UnicodeDecodeError)
             | Some t \<Rightarrow>
                 receive_bytes_to_string client_sock = Some (Inr (filter (\<lambda>c. c \<noteq> 10) t, s'))
                 \<and> 10 \<notin> set (filter (\<lambda>c. c \<noteq> 10) t)"
    by (simp add: receive_bytes_to_string_def split: option.splits)
qed

theorem receive_bytes_to_string_spec_witness:
  "recv \<lparr>incoming = map of_nat (py ''12'') @ [10, 0xC3, 0xA9], peer_closed = False, segs = [],
          rlog = [], sent = []\<rparr> 1024
   = Some (map of_nat (py ''12'') @ [10, 0xC3, 0xA9],
           \<lparr>incoming = [], peer_closed = False, segs = [],
              rlog = [(1024, map of_nat (py ''12'') @ [10, 0xC3, 0xA9])], sent = []\<rparr>)
   \<and> utf8_decode (map of_nat (py ''12'') @ [10, 0xC3, 0xA9]) = Some (py ''12'' @ [10, 233])
   \<and> receive_bytes_to_string
        \<lparr>incoming = map of_nat (py ''12'') @ [10, 0xC3, 0xA9], peer_closed = False, segs = [],
           rlog = [], sent = []\<rparr>
     = Some (Inr (py ''12'' @ [233],
                  \<lparr>incoming = [], peer_closed = False, segs = [],
                     rlog = [(1024, map of_nat (py ''12'') @ [10, 0xC3, 0xA9])], sent = []\<rparr>))"
proof -
  let ?s = "\<lparr>incoming = map of_nat (py ''12'') @ [10, 0xC3, 0xA9] :: byte list, peer_closed = False,
              segs = [], rlog = [], sent = []\<rparr>"
  let ?s' = "\<lparr>incoming = [] :: byte list, peer_closed = False, segs = [],
              rlog = [(1024, map of_nat (py ''12'') @ [10, 0xC3, 0xA9])], sent = []\<rparr>"
  have h: "recv ?s 1024 = Some (map of_nat (py ''12'') @ [10, 0xC3, 0xA9], ?s')"
    by (simp add: recv_def granted_def py_def)
  have d: "utf8_decode (map of_nat (py ''12'') @ [10, 0xC3, 0xA9 :: byte]) = Some (py ''12'' @ [10, 233])"
    by (simp add: py_def cont_def tail6_def)
  from receive_bytes_to_string_spec [of ?s, THEN conjunct2, rule_format, OF h] h d
  show ?thesis by (simp add: py_def)
qed

text \<open>
  Claim C9 as stated fails for a byte sequence that is not valid UTF-8: no text is
  returned.
\<close>

theorem receive_bytes_to_string_undecodable:
  "receive_bytes_to_string
     \<lparr>incoming = [0xFF], peer_closed = False, segs = [], rlog = [], sent = []\<rparr>
   = Some (Inl UnicodeDecodeError)"
  by (simp add: receive_bytes_to_string_def recv_def granted_def)

text \<open>
  Claim C10. At every iteration of the read loop of \<open>receive_frame\<close> the count of bytes
  written stays within \<open>frame_size\<close>. For every state \<open>(s1, img_size, img)\<close> the loop
  reaches from its start: \<open>img_size\<close> is the number of bytes written, these bytes are a
  prefix of the stream and what was not read is still in the socket (so bytes beyond the
  frame are never written), the count is at most a non-negative \<open>frame_size\<close>, and an
  iteration from this state asks for \<open>min 1024 remain\<close>, which is at most \<open>remain\<close>, gets
  no more than it asked for, and leaves the count at most \<open>frame_size\<close>.
\<close>

theorem receive_frame_never_overshoots:
  assumes "loop_reach frame_size (client_sock, 0, []) (s1, img_size, img)"
  shows "img_size = int (length img) \<and> incoming client_sock = img @ incoming s1
     \<and> (0 \<le> frame_size \<longrightarrow> img_size \<le> frame_size)
     \<and> (\<forall>s2 img_size2 img2.
           img_size < frame_size
           \<and> recv_iter frame_size (s1, img_size, img) = Some (s2, img_size2, img2) \<longrightarrow>
           img_size2 \<le> frame_size
           \<and> (\<exists>data. rlog s2 = rlog s1 @ [(nat (min 1024 (frame_size - img_size)), data)]
                 \<and> int (length data) \<le> min 1024 (frame_size - img_size)
                 \<and> min 1024 (frame_size - img_size) \<le> frame_size - img_size
                 \<and> img_size2 = img_size + int (length data) \<and> img2 = img @ data))"
proof -
  have "\<exists>data. rlog s2 = rlog s1 @ [(nat (min 1024 (frame_size - img_size)), data)]
                 \<and> int (length data) \<le> min 1024 (frame_size - img_size)
                 \<and> min 1024 (frame_size - img_size) \<le> frame_size - img_size
                 \<and> img_size2 = img_size + int (length data) \<and> img2 = img @ data"
    and "img_size2 \<le> frame_size"
    if "img_size < frame_size" and "recv_iter frame_size (s1, img_size, img) = Some (s2, img_size2, img2)"
    for s2 img_size2 img2
    using recv_iter_SomeD [OF that(2,1)] by auto
  with loop_reach_inv [OF assms] show ?thesis by simp blast
qed

theorem receive_frame_never_overshoots_witness:
  "loop_reach 2 (\<lparr>incoming = [7, 8, 9], peer_closed = False, segs = [], rlog = [], sent = []\<rparr>, 0, [])
                (\<lparr>incoming = [7, 8, 9], peer_closed = False, segs = [], rlog = [], sent = []\<rparr>, 0, [])
   \<and> (0::int) < 2
   \<and> recv_iter 2 (\<lparr>incoming = [7, 8, 9], peer_closed = False, segs = [], rlog = [], sent = []\<rparr>, 0, [])
      = Some (\<lparr>incoming = [9], peer_closed = False, segs = [], rlog = [(2, [7, 8])], sent = []\<rparr>, 2, [7, 8])
   \<and> (2::int) \<le> 2
   \<and> (\<exists>data. [(2, [7, 8 :: byte])] = [] @ [(nat (min 1024 (2 - 0)), data)]
         \<and> int (length data) \<le> min 1024 (2 - 0) \<and> [7, 8] = [] @ data)"
proof -
  let ?c = "\<lparr>incoming = [7, 8, 9 :: byte], peer_closed = False, segs = [], rlog = [], sent = []\<rparr>"
  have h: "loop_reach 2 (?c, 0, []) (?c, 0, [])" by (rule loop_reach.start)
  have it: "recv_iter 2 (?c, 0, [])
      = Some (\<lparr>incoming = [9], peer_closed = False, segs = [], rlog = [(2, [7, 8])], sent = []\<rparr>, 2, [7, 8])"
    by (simp add: recv_iter_def recv_def granted_def)
  from receive_frame_never_overshoots [OF h] it h show ?thesis by simp
qed

end
